theory Spec2Isabelle
  imports Complex_Main "HOL-Library.AList" "HOL-Library.Multiset"
begin

section \<open>CPU scheduling simulator: the engines of main.py\<close>

text \<open>
  The source is one Python script. Its core is four scheduling functions
  (\<open>fcfs\<close>, \<open>sjf\<close>, \<open>priority\<close>, \<open>round_robin\<close>) and \<open>calculate_metrics\<close>.
  Processes, timeline events and completion entries are Python dicts with fixed keys;
  they are records here. Python integers are unbounded, so times are \<open>int\<close>.
  A Python \<open>dict\<close> keeps insertion order and assignment to an existing key keeps the
  key's position: that is \<open>AList.update\<close> on an association list.
\<close>

subsection \<open>Data\<close>

record process =
  pid :: string
  arrival :: int
  burst :: int
  priority :: int

text \<open>A timeline entry \<open>{'pid': .., 'start': .., 'end': ..}\<close>. The idle entry of
  \<open>fcfs\<close> carries the string \<open>'IDLE'\<close> in the same field as a process id.\<close>

record event =
  ev_pid :: string
  ev_start :: int
  ev_end :: int

text \<open>A value of the \<open>results\<close> dict: \<open>{'arrival': .., 'burst': .., 'completion': ..}\<close>.\<close>

record completion_record =
  r_arrival :: int
  r_burst :: int
  r_completion :: int

type_synonym results = "(string \<times> completion_record) list"

text \<open>The exceptions the engines can raise: indexing a list out of range and looking up
  a missing dict key.\<close>

datatype py_error = IndexError | KeyError

text \<open>What a call leaves behind when it returns: the caller's list object (every engine
  sorts it in place), and the returned pair \<open>gantt, results\<close>.\<close>

record outcome =
  processes_after :: "process list"
  gantt :: "event list"
  results :: results

subsection \<open>FCFS (lines 12-28)\<close>

text \<open>\<open>processes.sort(key=lambda p: p['arrival'])\<close> is a stable sort, as \<open>sort_key\<close> is.
  The \<open>for\<close> loop is structural recursion on the sorted list; \<open>time\<close> starts at 0.\<close>

fun fcfs_loop :: "process list \<Rightarrow> int \<Rightarrow> event list \<Rightarrow> results \<Rightarrow> event list \<times> results" where
  "fcfs_loop [] time g res = (g, res)"
| "fcfs_loop (p # ps) time g res =
     (let g1 = (if time < arrival p
                then g @ [\<lparr>ev_pid = ''IDLE'', ev_start = time, ev_end = arrival p\<rparr>] else g);
          time1 = (if time < arrival p then arrival p else time);
          start = time1;
          end = start + burst p
      in fcfs_loop ps end
           (g1 @ [\<lparr>ev_pid = pid p, ev_start = start, ev_end = end\<rparr>])
           (AList.update (pid p)
              \<lparr>r_arrival = arrival p, r_burst = burst p, r_completion = end\<rparr> res))"

definition fcfs :: "process list \<Rightarrow> outcome" where
  "fcfs processes =
     (let ps = sort_key arrival processes;
          (g, res) = fcfs_loop ps 0 [] []
      in \<lparr>processes_after = ps, gantt = g, results = res\<rparr>)"

subsection \<open>SJF and Priority (lines 33-58 and 63-88)\<close>

text \<open>The admission loop
  \<open>while i < len(processes) and processes[i]['arrival'] <= time: ready.append(processes[i]); i += 1\<close>
  occurs in \<open>sjf\<close>, \<open>priority\<close> and twice in \<open>round_robin\<close>. It returns the new \<open>i\<close> and
  the new \<open>ready\<close>.\<close>

function admit :: "process list \<Rightarrow> int \<Rightarrow> nat \<Rightarrow> process list \<Rightarrow> nat \<times> process list" where
  "admit ps time i ready =
     (if i < length ps \<and> arrival (ps ! i) \<le> time
      then admit ps time (Suc i) (ready @ [ps ! i])
      else (i, ready))"
  by pat_completeness auto
termination
  by (relation "measure (\<lambda>(ps, time, i, ready). length ps - i)") auto

declare admit.simps [simp del]

text \<open>The loop state of \<open>sjf\<close> and \<open>priority\<close>.\<close>

record np_state =
  np_time :: int
  np_i :: nat
  np_ready :: "process list"
  np_gantt :: "event list"
  np_results :: results

text \<open>The bodies of \<open>sjf\<close> and \<open>priority\<close> are the same text except for the sort key of
  the ready list (\<open>p['burst']\<close> or \<open>p['priority']\<close>), which is the parameter \<open>key\<close>.
  One pass through the body of the outer \<open>while\<close>: \<open>processes[i]\<close> with \<open>i\<close> out of
  range raises \<open>IndexError\<close>; \<open>ready.sort\<close> is stable and \<open>ready.pop(0)\<close> leaves the
  sorted tail in \<open>ready\<close>.\<close>

definition np_step :: "(process \<Rightarrow> int) \<Rightarrow> process list \<Rightarrow> np_state \<Rightarrow> py_error + np_state" where
  "np_step key ps s =
     (case admit ps (np_time s) (np_i s) (np_ready s) of (i1, ready1) \<Rightarrow>
        if ready1 = [] then
          (if i1 < length ps
           then Inr (s\<lparr>np_i := i1, np_ready := ready1, np_time := arrival (ps ! i1)\<rparr>)
           else Inl IndexError)
        else
          (let sorted_ready = sort_key key ready1;
               p = hd sorted_ready;
               start = np_time s;
               end = start + burst p
           in Inr \<lparr>np_time = end, np_i = i1, np_ready = tl sorted_ready,
                   np_gantt = np_gantt s @ [\<lparr>ev_pid = pid p, ev_start = start, ev_end = end\<rparr>],
                   np_results = AList.update (pid p)
                     \<lparr>r_arrival = arrival p, r_burst = burst p, r_completion = end\<rparr>
                     (np_results s)\<rparr>))"

lemma admit_length:
  "admit ps t i r = (i1, r1) \<Longrightarrow> length ps - i1 + length r1 = length ps - i + length r"
proof (induction ps t i r rule: admit.induct)
  case (1 ps time i ready)
  show ?case
  proof (cases "i < length ps \<and> arrival (ps ! i) \<le> time")
    case True
    with 1 have "length ps - i1 + length r1 = length ps - Suc i + length (ready @ [ps ! i])"
      by (simp add: admit.simps [of ps time i ready])
    with True show ?thesis by auto
  next
    case False
    with 1 show ?thesis by (simp add: admit.simps [of ps time i ready])
  qed
qed

lemma admit_stops:
  "admit ps t i r = (i1, r1) \<Longrightarrow> \<not> (i1 < length ps \<and> arrival (ps ! i1) \<le> t)"
proof (induction ps t i r rule: admit.induct)
  case (1 ps time i ready)
  show ?case
  proof (cases "i < length ps \<and> arrival (ps ! i) \<le> time")
    case True
    with 1 show ?thesis by (simp add: admit.simps [of ps time i ready])
  next
    case False
    with 1 show ?thesis by (simp add: admit.simps [of ps time i ready])
  qed
qed

lemma admit_empty:
  "admit ps t i r = (i1, []) \<Longrightarrow> i1 = i \<and> r = []"
proof (induction ps t i r rule: admit.induct)
  case (1 ps time i ready)
  show ?case
  proof (cases "i < length ps \<and> arrival (ps ! i) \<le> time")
    case True
    with 1 show ?thesis by (simp add: admit.simps [of ps time i ready])
  next
    case False
    with 1 show ?thesis by (simp add: admit.simps [of ps time i ready])
  qed
qed

text \<open>The outer loop \<open>while len(results) < len(processes)\<close>. It ends on every state: a pass
  either takes a process out of the not yet run ones, or moves the clock to an arrival
  that the next pass admits, or raises.\<close>

definition np_measure :: "process list \<Rightarrow> np_state \<Rightarrow> nat" where
  "np_measure ps s =
     2 * (length ps - np_i s + length (np_ready s)) +
     (if np_ready s = [] \<and> (np_i s < length ps \<longrightarrow> np_time s < arrival (ps ! np_i s))
      then 1 else 0)"

lemma np_step_measure:
  assumes "np_step key ps s = Inr s'"
  shows "np_measure ps s' < np_measure ps s"
proof -
  obtain i1 ready1 where a: "admit ps (np_time s) (np_i s) (np_ready s) = (i1, ready1)"
    by (cases "admit ps (np_time s) (np_i s) (np_ready s)") auto
  note len = admit_length [OF a]
  show ?thesis
  proof (cases "ready1 = []")
    case True
    from a True have e: "i1 = np_i s" "np_ready s = []"
      using admit_empty by blast+
    from assms a True have lt: "i1 < length ps"
      and s': "s' = s\<lparr>np_i := i1, np_ready := ready1, np_time := arrival (ps ! i1)\<rparr>"
      by (auto simp: np_step_def split: if_splits)
    from admit_stops [OF a] lt have "np_time s < arrival (ps ! i1)" by simp
    with e lt s' True show ?thesis by (simp add: np_measure_def)
  next
    case False
    then have pos: "0 < length ready1" by simp
    from assms a False have
      "np_i s' = i1" "np_ready s' = tl (sort_key key ready1)"
      by (auto simp: np_step_def Let_def)
    then have "np_measure ps s' \<le> 2 * (length ps - i1 + (length ready1 - 1)) + 1"
      by (simp add: np_measure_def)
    moreover have "2 * (length ps - i1 + length ready1) \<le> np_measure ps s"
      using len by (simp add: np_measure_def)
    ultimately show ?thesis using pos by arith
  qed
qed

function np_loop :: "(process \<Rightarrow> int) \<Rightarrow> process list \<Rightarrow> np_state \<Rightarrow> py_error + np_state" where
  "np_loop key ps s =
     (if length (np_results s) < length ps
      then (case np_step key ps s of Inl e \<Rightarrow> Inl e | Inr s' \<Rightarrow> np_loop key ps s')
      else Inr s)"
  by pat_completeness auto
termination
  by (relation "measure (\<lambda>(key, ps, s). np_measure ps s)") (auto simp: np_step_measure)

declare np_loop.simps [simp del]

text \<open>\<open>time = processes[0]['arrival']\<close> raises \<open>IndexError\<close> on the empty list, after the
  sort.\<close>

definition nonpreemptive :: "(process \<Rightarrow> int) \<Rightarrow> process list \<Rightarrow> py_error + outcome" where
  "nonpreemptive key processes =
     (let ps = sort_key arrival processes in
      case ps of
        [] \<Rightarrow> Inl IndexError
      | p0 # _ \<Rightarrow>
          (case np_loop key ps
                  \<lparr>np_time = arrival p0, np_i = 0, np_ready = [], np_gantt = [], np_results = []\<rparr> of
             Inl e \<Rightarrow> Inl e
           | Inr s \<Rightarrow> Inr \<lparr>processes_after = ps, gantt = np_gantt s, results = np_results s\<rparr>))"

definition sjf :: "process list \<Rightarrow> py_error + outcome" where
  "sjf processes = nonpreemptive burst processes"

definition priority_sched :: "process list \<Rightarrow> py_error + outcome" where
  "priority_sched processes = nonpreemptive priority processes"

subsection \<open>Round Robin (lines 93-131)\<close>

text \<open>The loop state of \<open>round_robin\<close>. The dicts \<open>remaining\<close> and \<open>completed\<close> are
  association lists in insertion order.\<close>

record rr_state =
  rr_time :: int
  rr_i :: nat
  rr_ready :: "process list"
  rr_gantt :: "event list"
  rr_remaining :: "(string \<times> int) list"
  rr_completed :: "(string \<times> int) list"

text \<open>One pass through the body of the outer \<open>while\<close> (lines 103-128). \<open>remaining[pid]\<close>
  raises \<open>KeyError\<close> on a missing key. The second admission loop (line 121) compares
  with \<open>\<le>\<close> against the clock after the slice, and runs before \<open>ready.append(p)\<close>.\<close>

definition rr_step :: "process list \<Rightarrow> int \<Rightarrow> rr_state \<Rightarrow> py_error + rr_state" where
  "rr_step ps quantum s =
     (case admit ps (rr_time s) (rr_i s) (rr_ready s) of (i1, ready1) \<Rightarrow>
        (case ready1 of
           [] \<Rightarrow>
             (if i1 < length ps
              then Inr (s\<lparr>rr_i := i1, rr_ready := [], rr_time := arrival (ps ! i1)\<rparr>)
              else Inl IndexError)
         | p # rest \<Rightarrow>
             (case map_of (rr_remaining s) (pid p) of
                None \<Rightarrow> Inl KeyError
              | Some rem \<Rightarrow>
                  (let run_time = min quantum rem;
                       start = rr_time s;
                       end = start + run_time;
                       g = rr_gantt s @ [\<lparr>ev_pid = pid p, ev_start = start, ev_end = end\<rparr>];
                       remaining = AList.update (pid p) (rem - run_time) (rr_remaining s)
                   in case admit ps end i1 rest of (i2, ready2) \<Rightarrow>
                        if 0 < rem - run_time
                        then Inr \<lparr>rr_time = end, rr_i = i2, rr_ready = ready2 @ [p],
                                  rr_gantt = g, rr_remaining = remaining,
                                  rr_completed = rr_completed s\<rparr>
                        else Inr \<lparr>rr_time = end, rr_i = i2, rr_ready = ready2,
                                  rr_gantt = g, rr_remaining = remaining,
                                  rr_completed = AList.update (pid p) end (rr_completed s)\<rparr>))))"

text \<open>The outer loop \<open>while len(completed) < len(processes)\<close>. With a quantum that is not
  positive it can run forever; \<open>None\<close> is the run that never returns.\<close>

partial_function (option) rr_loop ::
    "process list \<Rightarrow> int \<Rightarrow> rr_state \<Rightarrow> (py_error + rr_state) option" where
  "rr_loop ps quantum s =
     (if length (rr_completed s) < length ps
      then (case rr_step ps quantum s of
              Inl e \<Rightarrow> Some (Inl e)
            | Inr s' \<Rightarrow> rr_loop ps quantum s')
      else Some (Inr s))"

declare rr_loop.simps [code]

text \<open>The dict comprehension of line 130; \<open>completed[p['pid']]\<close> raises \<open>KeyError\<close> on a
  missing key.\<close>

fun rr_results :: "(string \<times> int) list \<Rightarrow> process list \<Rightarrow> results \<Rightarrow> py_error + results" where
  "rr_results completed [] res = Inr res"
| "rr_results completed (p # ps) res =
     (case map_of completed (pid p) of
        None \<Rightarrow> Inl KeyError
      | Some c \<Rightarrow>
          rr_results completed ps
            (AList.update (pid p)
               \<lparr>r_arrival = arrival p, r_burst = burst p, r_completion = c\<rparr> res))"

text \<open>The dict comprehension of line 98: a later process with the same pid overwrites.\<close>

definition init_remaining :: "process list \<Rightarrow> (string \<times> int) list" where
  "init_remaining ps = foldl (\<lambda>d p. AList.update (pid p) (burst p) d) [] ps"

definition rr_init :: "process list \<Rightarrow> process \<Rightarrow> rr_state" where
  "rr_init ps p0 =
     \<lparr>rr_time = arrival p0, rr_i = 0, rr_ready = [], rr_gantt = [],
      rr_remaining = init_remaining ps, rr_completed = []\<rparr>"

definition round_robin :: "process list \<Rightarrow> int \<Rightarrow> (py_error + outcome) option" where
  "round_robin processes quantum =
     (let ps = sort_key arrival processes in
      case ps of
        [] \<Rightarrow> Some (Inl IndexError)
      | p0 # _ \<Rightarrow>
          (case rr_loop ps quantum (rr_init ps p0) of
             None \<Rightarrow> None
           | Some (Inl e) \<Rightarrow> Some (Inl e)
           | Some (Inr s) \<Rightarrow>
               (case rr_results (rr_completed s) ps [] of
                  Inl e \<Rightarrow> Some (Inl e)
                | Inr res \<Rightarrow>
                    Some (Inr \<lparr>processes_after = ps, gantt = rr_gantt s, results = res\<rparr>))))"

subsection \<open>The dispatch (lines 186-193)\<close>

text \<open>\<open>algo\<close> is the string of the select box; every value other than the first three
  runs \<open>round_robin\<close>. No check of the process list precedes the call.\<close>

definition simulate :: "string \<Rightarrow> process list \<Rightarrow> int \<Rightarrow> (py_error + outcome) option" where
  "simulate algo processes quantum =
     (if algo = ''FCFS'' then Some (Inr (fcfs processes))
      else if algo = ''SJF'' then Some (sjf processes)
      else if algo = ''Priority'' then Some (priority_sched processes)
      else round_robin processes quantum)"

subsection \<open>Metrics (lines 136-145)\<close>

text \<open>A row \<open>[pid, arrival, burst, completion, tat, wt]\<close> of the data frame.\<close>

record metrics_row =
  m_pid :: string
  m_arrival :: int
  m_burst :: int
  m_completion :: int
  m_turnaround :: int
  m_waiting :: int

text \<open>The mean of a column, as a rational number; the mean of an empty column is
  pandas' NaN, which is \<open>None\<close> here. The rounding of the quotient to a 64-bit float
  is outside this model.\<close>

definition mean :: "int list \<Rightarrow> rat option" where
  "mean xs = (if xs = [] then None else Some (of_int (sum_list xs) / of_nat (length xs)))"

definition metrics_row_of :: "string \<times> completion_record \<Rightarrow> metrics_row" where
  "metrics_row_of kv =
     (let r = snd kv;
          tat = r_completion r - r_arrival r;
          wt = tat - r_burst r
      in \<lparr>m_pid = fst kv, m_arrival = r_arrival r, m_burst = r_burst r,
          m_completion = r_completion r, m_turnaround = tat, m_waiting = wt\<rparr>)"

definition calculate_metrics :: "results \<Rightarrow> metrics_row list \<times> rat option \<times> rat option" where
  "calculate_metrics res =
     (let df = map metrics_row_of res;
          avg_wt = mean (map m_waiting df);
          avg_tat = mean (map m_turnaround df)
      in (df, avg_wt, avg_tat))"

subsection \<open>Notions of the specification\<close>

text \<open>A valid ProcessSet: unique pids, every arrival at least 0, every burst positive.\<close>

definition valid_process_set :: "process list \<Rightarrow> bool" where
  "valid_process_set ps \<longleftrightarrow>
     distinct (map pid ps) \<and> (\<forall>p \<in> set ps. 0 \<le> arrival p \<and> 0 < burst p)"

text \<open>The sum of the durations of the timeline events attributed to a pid, idle events
  excluded. An idle event is recognised as the source's chart code recognises it: by
  the string \<open>'IDLE'\<close> in its pid field.\<close>

definition busy_time :: "string \<Rightarrow> event list \<Rightarrow> int" where
  "busy_time k g =
     (\<Sum>e\<leftarrow>filter (\<lambda>e. ev_pid e = k \<and> ev_pid e \<noteq> ''IDLE'') g. ev_end e - ev_start e)"

text \<open>Every process of the list has its completion entry, with its own arrival and burst,
  and the dict has no other entry.\<close>

definition all_completed :: "process list \<Rightarrow> results \<Rightarrow> bool" where
  "all_completed ps res \<longleftrightarrow>
     length res = length ps \<and>
     (\<forall>p \<in> set ps. case map_of res (pid p) of
                      None \<Rightarrow> False
                    | Some r \<Rightarrow> r_arrival r = arrival p \<and> r_burst r = burst p)"

subsection \<open>Invariants of the loops\<close>

text \<open>The state of \<open>sjf\<close> and \<open>priority\<close> on a list with unique pids, in terms of the
  list \<open>done\<close> of the processes run so far, in the order they ran: the admitted
  processes are the ready ones and the ones run, and the timeline and the completion
  dict have one entry for each process run, in that order.\<close>

definition np_inv :: "process list \<Rightarrow> np_state \<Rightarrow> process list \<Rightarrow> bool" where
  "np_inv ps s done \<longleftrightarrow>
     np_i s \<le> length ps \<and>
     mset (np_ready s) + mset done = mset (take (np_i s) ps) \<and>
     map (\<lambda>e. (ev_pid e, ev_end e - ev_start e)) (np_gantt s) =
       map (\<lambda>p. (pid p, burst p)) done \<and>
     map (\<lambda>kv. (fst kv, r_arrival (snd kv), r_burst (snd kv))) (np_results s) =
       map (\<lambda>p. (pid p, arrival p, burst p)) done"

text \<open>Two facts about a timeline under construction and the clock: no event begins
  before the one before it ends, and the clock is not behind the last end;
  the first event begins at \<open>t0\<close>, and while there is none the clock still is \<open>t0\<close>.\<close>

definition ordered_upto :: "event list \<Rightarrow> int \<Rightarrow> bool" where
  "ordered_upto g t \<longleftrightarrow>
     successively (\<lambda>a b. ev_end a \<le> ev_start b) g \<and> (g \<noteq> [] \<longrightarrow> ev_end (last g) \<le> t)"

definition starts_at :: "int \<Rightarrow> event list \<Rightarrow> int \<Rightarrow> bool \<Rightarrow> bool" where
  "starts_at t0 g t fresh \<longleftrightarrow>
     (g = [] \<longrightarrow> t = t0 \<and> fresh) \<and> (g \<noteq> [] \<longrightarrow> ev_start (hd g) = t0)"

text \<open>The durations of all events that carry a pid, an idle event included.\<close>

definition slice_total :: "string \<Rightarrow> event list \<Rightarrow> int" where
  "slice_total k g = (\<Sum>e\<leftarrow>filter (\<lambda>e. ev_pid e = k) g. ev_end e - ev_start e)"

text \<open>The state of \<open>round_robin\<close> on a valid list, in terms of the list \<open>done\<close> of the
  completed processes in completion order: the admitted processes are the queued and
  the completed ones; what a process has run so far and what remains of it add up to
  its burst; a queued process has work left, a process not yet admitted has all of
  its burst left, a completed one has none.\<close>

definition rr_inv :: "process list \<Rightarrow> rr_state \<Rightarrow> process list \<Rightarrow> bool" where
  "rr_inv ps s done \<longleftrightarrow>
     rr_i s \<le> length ps \<and>
     mset (rr_ready s) + mset done = mset (take (rr_i s) ps) \<and>
     map fst (rr_completed s) = map pid done \<and>
     (\<forall>p \<in> set ps. \<exists>r. map_of (rr_remaining s) (pid p) = Some r \<and> 0 \<le> r \<and>
                        slice_total (pid p) (rr_gantt s) + r = burst p) \<and>
     (\<forall>p \<in> set (rr_ready s). \<exists>r. map_of (rr_remaining s) (pid p) = Some r \<and> 0 < r) \<and>
     (\<forall>p \<in> set (drop (rr_i s) ps). map_of (rr_remaining s) (pid p) = Some (burst p)) \<and>
     (\<forall>p \<in> set done. map_of (rr_remaining s) (pid p) = Some 0)"

text \<open>The work left: the sum of the remaining-burst counters over the processes.\<close>

definition rr_work :: "process list \<Rightarrow> rr_state \<Rightarrow> int" where
  "rr_work ps s =
     (\<Sum>p\<leftarrow>ps. case map_of (rr_remaining s) (pid p) of None \<Rightarrow> 0 | Some r \<Rightarrow> r)"

definition rr_measure :: "process list \<Rightarrow> rr_state \<Rightarrow> nat" where
  "rr_measure ps s =
     2 * nat (rr_work ps s) +
     (if rr_ready s = [] \<and> (rr_i s < length ps \<longrightarrow> rr_time s < arrival (ps ! rr_i s))
      then 1 else 0)"

section \<open>Auxiliary facts\<close>

subsection \<open>The admission loop and the outer loops\<close>

lemma admit_eq:
  "admit ps t i r =
     (i + length (takeWhile (\<lambda>p. arrival p \<le> t) (drop i ps)),
      r @ takeWhile (\<lambda>p. arrival p \<le> t) (drop i ps))"
proof (induction ps t i r rule: admit.induct)
  case (1 ps time i ready)
  show ?case
  proof (cases "i < length ps \<and> arrival (ps ! i) \<le> time")
    case True
    then have d: "drop i ps = ps ! i # drop (Suc i) ps"
      by (simp add: Cons_nth_drop_Suc)
    from True 1 show ?thesis
      by (simp add: admit.simps [of ps time i ready] d)
  next
    case False
    show ?thesis
    proof (cases "i < length ps")
      case True
      then have d: "drop i ps = ps ! i # drop (Suc i) ps"
        by (simp add: Cons_nth_drop_Suc)
      from False True show ?thesis
        by (simp add: admit.simps [of ps time i ready] d)
    next
      case False
      then show ?thesis by (simp add: admit.simps [of ps time i ready])
    qed
  qed
qed

lemma simulate_cases:
  assumes "simulate algo ps q = Some (Inr out)"
  shows "(algo = ''FCFS'' \<and> out = fcfs ps) \<or> (algo \<noteq> ''FCFS'' \<and>
     (sjf ps = Inr out \<or> priority_sched ps = Inr out \<or> round_robin ps q = Some (Inr out)))"
  using assms by (auto simp: simulate_def split: if_splits)

lemma np_loop_rule:
  assumes "np_loop key ps s = Inr r" and "P s"
    and "\<And>s s'. P s \<Longrightarrow> length (np_results s) < length ps \<Longrightarrow> np_step key ps s = Inr s' \<Longrightarrow> P s'"
  shows "P r \<and> length ps \<le> length (np_results r)"
  using assms
proof (induction key ps s rule: np_loop.induct)
  case (1 key ps s)
  show ?case
  proof (cases "length (np_results s) < length ps")
    case True
    with "1.prems"(1) obtain s' where st: "np_step key ps s = Inr s'"
      and l: "np_loop key ps s' = Inr r"
      by (auto simp: np_loop.simps [of key ps s] split: sum.splits)
    from "1.prems"(3) [OF "1.prems"(2) True st] have "P s'" .
    with "1.IH" [OF True st l] "1.prems"(3) show ?thesis by blast
  next
    case False
    with "1.prems" show ?thesis by (simp add: np_loop.simps [of key ps s])
  qed
qed

lemma rr_loop_rule:
  assumes run: "rr_loop ps q s = Some (Inr r)" and init: "P s"
    and step: "\<And>s s'. P s \<Longrightarrow> length (rr_completed s) < length ps \<Longrightarrow> rr_step ps q s = Inr s' \<Longrightarrow> P s'"
  shows "P r \<and> length ps \<le> length (rr_completed r)"
proof -
  define Q where "Q = (\<lambda>ps' q' s (y :: py_error + rr_state). ps' = ps \<longrightarrow> q' = q \<longrightarrow> P s \<longrightarrow>
        (\<forall>r. y = Inr r \<longrightarrow> P r \<and> length ps \<le> length (rr_completed r)))"
  have "Q ps q s (Inr r)"
  proof (rule rr_loop.raw_induct [where P = Q, OF _ run])
    fix f ps' q' s y
    assume IH: "\<And>ps' q' s y. f ps' q' s = Some y \<Longrightarrow> Q ps' q' s y"
      and body: "(if length (rr_completed s) < length ps'
           then case rr_step ps' q' s of Inl e \<Rightarrow> Some (Inl e) | Inr s' \<Rightarrow> f ps' q' s'
           else Some (Inr s)) = Some y"
    show "Q ps' q' s y"
      unfolding Q_def
    proof (intro impI allI)
      fix r assume eq: "ps' = ps" "q' = q" and P: "P s" and y: "y = Inr r"
      show "P r \<and> length ps \<le> length (rr_completed r)"
      proof (cases "length (rr_completed s) < length ps")
        case True
        with body eq y obtain s' where st: "rr_step ps q s = Inr s'"
          and l: "f ps q s' = Some (Inr r)"
          by (auto split: sum.splits if_splits)
        from step [OF P True st] have "P s'" .
        with IH [OF l] show ?thesis by (simp add: Q_def)
      next
        case False
        with body eq y P show ?thesis by auto
      qed
    qed
  qed
  with init show ?thesis by (simp add: Q_def)
qed

subsection \<open>Lists of events\<close>

lemma successively_nth:
  "successively P xs \<longleftrightarrow> (\<forall>i. Suc i < length xs \<longrightarrow> P (xs ! i) (xs ! Suc i))"
proof (induction P xs rule: successively.induct)
  case (3 P x y xs)
  show ?case
  proof
    assume a: "successively P (x # y # xs)"
    show "\<forall>i. Suc i < length (x # y # xs) \<longrightarrow> P ((x # y # xs) ! i) ((x # y # xs) ! Suc i)"
    proof (intro allI impI)
      fix i assume "Suc i < length (x # y # xs)"
      with a 3 show "P ((x # y # xs) ! i) ((x # y # xs) ! Suc i)"
        by (cases i) auto
    qed
  next
    assume a: "\<forall>i. Suc i < length (x # y # xs) \<longrightarrow> P ((x # y # xs) ! i) ((x # y # xs) ! Suc i)"
    from a [rule_format, of 0] have "P x y" by simp
    moreover have "\<forall>i. Suc i < length (y # xs) \<longrightarrow> P ((y # xs) ! i) ((y # xs) ! Suc i)"
    proof (intro allI impI)
      fix i assume "Suc i < length (y # xs)"
      with a [rule_format, of "Suc i"] show "P ((y # xs) ! i) ((y # xs) ! Suc i)" by simp
    qed
    ultimately show "successively P (x # y # xs)" using 3 by simp
  qed
qed simp_all

lemma successively_snoc:
  "successively P (xs @ [x]) \<longleftrightarrow> successively P xs \<and> (xs \<noteq> [] \<longrightarrow> P (last xs) x)"
  by (auto simp: successively_append_iff)

lemma busy_time_append:
  "busy_time k (g @ h) = busy_time k g + busy_time k h"
  by (simp add: busy_time_def)

lemma busy_time_single:
  "busy_time k [e] = (if ev_pid e = k \<and> k \<noteq> ''IDLE'' then ev_end e - ev_start e else 0)"
  by (auto simp: busy_time_def)

lemma busy_time_Nil: "busy_time k [] = 0"
  by (simp add: busy_time_def)

subsection \<open>The FCFS loop\<close>

lemma fcfs_loop_busy:
  "k \<noteq> ''IDLE'' \<Longrightarrow>
   busy_time k (fst (fcfs_loop ps t g res)) =
     busy_time k g + (\<Sum>x\<leftarrow>filter (\<lambda>x. pid x = k) ps. burst x)"
  by (induction ps arbitrary: t g res)
     (auto simp: Let_def busy_time_append busy_time_single)

lemma fcfs_loop_contiguous:
  "successively (\<lambda>a b. ev_end a = ev_start b) g \<Longrightarrow> (g \<noteq> [] \<longrightarrow> ev_end (last g) = t) \<Longrightarrow>
   successively (\<lambda>a b. ev_end a = ev_start b) (fst (fcfs_loop ps t g res))"
  by (induction ps arbitrary: t g res) (auto simp: Let_def successively_snoc)

lemma fcfs_loop_hd:
  "g \<noteq> [] \<Longrightarrow> fst (fcfs_loop ps t g res) \<noteq> [] \<and> hd (fst (fcfs_loop ps t g res)) = hd g"
  by (induction ps arbitrary: t g res) (auto simp: Let_def)

lemma fcfs_loop_first:
  "ps \<noteq> [] \<Longrightarrow> fst (fcfs_loop ps t [] res) \<noteq> [] \<and> ev_start (hd (fst (fcfs_loop ps t [] res))) = t"
  by (cases ps) (auto simp: Let_def fcfs_loop_hd)

lemma fcfs_loop_first_idle:
  "ps \<noteq> [] \<Longrightarrow> t < arrival (hd ps) \<Longrightarrow>
   hd (fst (fcfs_loop ps t [] res)) = \<lparr>ev_pid = ''IDLE'', ev_start = t, ev_end = arrival (hd ps)\<rparr>"
  by (cases ps) (auto simp: Let_def fcfs_loop_hd)

lemma fcfs_loop_results:
  "distinct (map pid ps) \<Longrightarrow> p \<in> set ps \<Longrightarrow>
   \<exists>c. map_of (snd (fcfs_loop ps t g res)) (pid p) =
          Some \<lparr>r_arrival = arrival p, r_burst = burst p, r_completion = c\<rparr>"
proof -
  have keep: "k \<notin> pid ` set ps \<Longrightarrow> map_of (snd (fcfs_loop ps t g res)) k = map_of res k"
    for k ps t g res
    by (induction ps arbitrary: t g res) (auto simp: Let_def update_conv')
  show "distinct (map pid ps) \<Longrightarrow> p \<in> set ps \<Longrightarrow> ?thesis"
  proof (induction ps arbitrary: t g res)
    case Nil
    then show ?case by simp
  next
    case (Cons a ps)
    show ?case
    proof (cases "p = a")
      case True
      with Cons.prems have "pid p \<notin> pid ` set ps" by auto
      with True show ?thesis by (simp add: Let_def keep update_conv')
    next
      case False
      with Cons show ?thesis by (simp add: Let_def)
    qed
  qed
qed

lemma fcfs_loop_keys:
  "fst ` set (snd (fcfs_loop ps t g res)) = fst ` set res \<union> pid ` set ps"
proof (induction ps arbitrary: t g res)
  case (Cons a ps)
  have "fst ` set (AList.update k v res) = insert k (fst ` set res)" for k and v :: completion_record
    using dom_update [of k v res] by (simp add: dom_map_of_conv_image_fst)
  with Cons show ?case by (simp add: Let_def)
qed simp

lemma fcfs_loop_length:
  "length g + length ps \<le> length (fst (fcfs_loop ps t g res))"
proof (induction ps arbitrary: t g res)
  case (Cons a ps)
  show ?case
    by (auto simp: Let_def intro!: order_trans [OF _ Cons])
qed simp

subsection \<open>The admission loop, continued\<close>

lemma admit_facts:
  assumes "admit ps t i r = (i1, r1)" and "i \<le> length ps"
  shows "i \<le> i1" and "i1 \<le> length ps"
    and "r1 = r @ takeWhile (\<lambda>p. arrival p \<le> t) (drop i ps)"
    and "take i1 ps = take i ps @ takeWhile (\<lambda>p. arrival p \<le> t) (drop i ps)"
    and "set (drop i1 ps) \<subseteq> set (drop i ps)"
    and "set (takeWhile (\<lambda>p. arrival p \<le> t) (drop i ps)) \<subseteq> set (drop i ps)"
proof -
  let ?tw = "takeWhile (\<lambda>p. arrival p \<le> t) (drop i ps)"
  from assms(1) have i1: "i1 = i + length ?tw" and r1: "r1 = r @ ?tw"
    by (simp_all add: admit_eq)
  show "i \<le> i1" using i1 by simp
  have "length ?tw \<le> length (drop i ps)" by (rule length_takeWhile_le)
  with assms(2) show "i1 \<le> length ps" using i1 by simp
  show "r1 = r @ ?tw" by (rule r1)
  have "take (length ?tw) (drop i ps) = ?tw"
    by (rule takeWhile_eq_take [symmetric])
  then show "take i1 ps = take i ps @ ?tw"
    by (simp add: i1 take_add)
  have "set (drop (length ?tw) (drop i ps)) \<subseteq> set (drop i ps)"
    by (rule set_drop_subset)
  moreover have "drop i1 ps = drop (length ?tw) (drop i ps)"
    by (simp only: i1 drop_drop add.commute)
  ultimately show "set (drop i1 ps) \<subseteq> set (drop i ps)"
    by simp
  show "set ?tw \<subseteq> set (drop i ps)"
    by (auto dest: set_takeWhileD)
qed

subsection \<open>The loop of SJF and Priority\<close>

lemma update_fresh:
  "k \<notin> fst ` set al \<Longrightarrow> AList.update k v al = al @ [(k, v)]"
  by (induction al) auto

lemma admitted_distinct:
  assumes "distinct (map pid ps)" and "mset r + mset d = mset (take i ps)"
  shows "distinct (map pid (r @ d))"
proof -
  have "distinct (take i (map pid ps))" using assms(1) by (rule distinct_take)
  then have "distinct (map pid (take i ps))" by (simp add: take_map)
  moreover have "mset (map pid (r @ d)) = mset (map pid (take i ps))"
    using assms(2) by (metis mset_append mset_map)
  ultimately show ?thesis by (metis mset_eq_imp_distinct_iff)
qed

lemma np_step_inv:
  assumes d: "distinct (map pid ps)" and inv: "np_inv ps s done"
    and st: "np_step key ps s = Inr s'"
  shows "\<exists>done'. np_inv ps s' done'"
proof -
  obtain i1 ready1 where a: "admit ps (np_time s) (np_i s) (np_ready s) = (i1, ready1)"
    by (cases "admit ps (np_time s) (np_i s) (np_ready s)") auto
  from inv have i: "np_i s \<le> length ps" by (simp add: np_inv_def)
  note f = admit_facts [OF a i]
  let ?tw = "takeWhile (\<lambda>p. arrival p \<le> np_time s) (drop (np_i s) ps)"
  from inv f(3,4) have m: "mset ready1 + mset done = mset (take i1 ps)"
    by (simp add: np_inv_def)
  show ?thesis
  proof (cases "ready1 = []")
    case True
    with st a have "s' = s\<lparr>np_i := i1, np_ready := ready1, np_time := arrival (ps ! i1)\<rparr>"
      by (auto simp: np_step_def split: if_splits)
    with inv m f(2) have "np_inv ps s' done" by (simp add: np_inv_def)
    then show ?thesis ..
  next
    case False
    define srt where "srt = sort_key key ready1"
    define p where "p = hd srt"
    from False have ne: "srt \<noteq> []" unfolding srt_def by (metis set_sort set_empty)
    then have srt: "srt = p # tl srt" by (simp add: p_def)
    have "mset srt = mset ready1" by (simp add: srt_def)
    with srt have mr: "mset ready1 = add_mset p (mset (tl srt))"
      by (metis mset.simps(2))
    from admitted_distinct [OF d m] have dist: "distinct (map pid (ready1 @ done))" .
    have pin: "p \<in> set ready1" using mr by (metis mset_eq_setD srt list.set_intros(1) \<open>mset srt = mset ready1\<close>)
    with dist have fresh: "pid p \<notin> pid ` set done" by auto
    from inv have "map fst (np_results s) = map pid done"
    proof -
      from inv have "map (\<lambda>kv. (fst kv, r_arrival (snd kv), r_burst (snd kv))) (np_results s) =
        map (\<lambda>p. (pid p, arrival p, burst p)) done" by (simp add: np_inv_def)
      then have "map fst (map (\<lambda>kv. (fst kv, r_arrival (snd kv), r_burst (snd kv))) (np_results s)) =
        map fst (map (\<lambda>p. (pid p, arrival p, burst p)) done)" by simp
      then show ?thesis by (simp add: comp_def)
    qed
    then have "fst ` set (np_results s) = pid ` set done"
      by (metis image_set)
    with fresh have fr: "pid p \<notin> fst ` set (np_results s)" by simp
    from st a False have s': "s' = \<lparr>np_time = np_time s + burst p, np_i = i1, np_ready = tl srt,
         np_gantt = np_gantt s @ [\<lparr>ev_pid = pid p, ev_start = np_time s, ev_end = np_time s + burst p\<rparr>],
         np_results = AList.update (pid p)
           \<lparr>r_arrival = arrival p, r_burst = burst p, r_completion = np_time s + burst p\<rparr>
           (np_results s)\<rparr>"
      by (simp add: np_step_def Let_def srt_def p_def)
    have "np_inv ps s' (done @ [p])"
      using inv m mr f(2) by (simp add: s' np_inv_def update_fresh [OF fr])
    then show ?thesis ..
  qed
qed

lemma np_inv_lengths:
  assumes "np_inv ps s done"
  shows "length (np_results s) = length done"
    and "length (np_ready s) + length done = min (np_i s) (length ps)"
proof -
  from assms have "map (\<lambda>kv. (fst kv, r_arrival (snd kv), r_burst (snd kv))) (np_results s) =
        map (\<lambda>p. (pid p, arrival p, burst p)) done" by (simp add: np_inv_def)
  then have "length (map (\<lambda>kv. (fst kv, r_arrival (snd kv), r_burst (snd kv))) (np_results s)) =
        length (map (\<lambda>p. (pid p, arrival p, burst p)) done)" by (rule arg_cong)
  then show "length (np_results s) = length done" by simp
  from assms have "mset (np_ready s) + mset done = mset (take (np_i s) ps)"
    by (simp add: np_inv_def)
  then have "size (mset (np_ready s) + mset done) = size (mset (take (np_i s) ps))"
    by (rule arg_cong)
  then show "length (np_ready s) + length done = min (np_i s) (length ps)"
    by (simp add: min.commute)
qed

lemma np_step_no_error:
  assumes inv: "np_inv ps s done" and c: "length (np_results s) < length ps"
  shows "\<exists>s'. np_step key ps s = Inr s'"
proof -
  obtain i1 ready1 where a: "admit ps (np_time s) (np_i s) (np_ready s) = (i1, ready1)"
    by (cases "admit ps (np_time s) (np_i s) (np_ready s)") auto
  show ?thesis
  proof (cases "ready1 = []")
    case True
    with a have e: "i1 = np_i s" "np_ready s = []" using admit_empty by blast+
    from np_inv_lengths [OF inv] e c have "i1 < length ps" by simp
    with a True show ?thesis by (simp add: np_step_def)
  next
    case False
    with a show ?thesis by (simp add: np_step_def Let_def)
  qed
qed

lemma np_loop_total:
  assumes "distinct (map pid ps)" and "np_inv ps s done"
  shows "\<exists>r done'. np_loop key ps s = Inr r \<and> np_inv ps r done' \<and>
           length ps \<le> length (np_results r)"
  using assms
proof (induction key ps s arbitrary: "done" rule: np_loop.induct)
  case (1 key ps s)
  show ?case
  proof (cases "length (np_results s) < length ps")
    case True
    from np_step_no_error [OF "1.prems"(2) True] obtain s' where st: "np_step key ps s = Inr s'"
      by blast
    from np_step_inv [OF "1.prems" st] obtain done' where "np_inv ps s' done'" by blast
    from "1.IH" [OF True st "1.prems"(1) this] True st show ?thesis
      by (simp add: np_loop.simps [of key ps s])
  next
    case False
    with "1.prems" show ?thesis by (auto simp: np_loop.simps [of key ps s])
  qed
qed

lemma np_inv_final:
  assumes inv: "np_inv ps r done" and c: "length ps \<le> length (np_results r)"
  shows "mset done = mset ps"
proof -
  from np_inv_lengths [OF inv] c have "length (np_ready r) = 0" and "length ps \<le> np_i r"
    by linarith+
  then have "np_ready r = []" and "length ps \<le> np_i r" by simp_all
  moreover from inv have "mset (np_ready r) + mset done = mset (take (np_i r) ps)"
    by (simp add: np_inv_def)
  ultimately show ?thesis by simp
qed

subsection \<open>From the processes run to the timeline and the completion dict\<close>

lemma busy_time_of_done:
  assumes "map (\<lambda>e. (ev_pid e, ev_end e - ev_start e)) g = map (\<lambda>p. (pid p, burst p)) done"
  shows "busy_time k g = (if k = ''IDLE'' then 0 else (\<Sum>p\<leftarrow>filter (\<lambda>p. pid p = k) done. burst p))"
proof -
  let ?f = "\<lambda>e. (ev_pid e, ev_end e - ev_start e)"
  let ?Q = "\<lambda>x :: string \<times> int. fst x = k \<and> fst x \<noteq> ''IDLE''"
  have "busy_time k g = sum_list (map snd (filter ?Q (map ?f g)))"
    by (simp add: busy_time_def filter_map comp_def)
  also have "\<dots> = sum_list (map snd (filter ?Q (map (\<lambda>p. (pid p, burst p)) done)))"
    by (simp only: assms)
  also have "\<dots> = (\<Sum>p\<leftarrow>filter (\<lambda>p. pid p = k \<and> pid p \<noteq> ''IDLE'') done. burst p)"
    by (simp add: filter_map comp_def)
  also have "\<dots> = (if k = ''IDLE'' then 0 else (\<Sum>p\<leftarrow>filter (\<lambda>p. pid p = k) done. burst p))"
  proof (cases "k = ''IDLE''")
    case True
    then show ?thesis by simp
  next
    case False
    then have "filter (\<lambda>p. pid p = k \<and> pid p \<noteq> ''IDLE'') done = filter (\<lambda>p. pid p = k) done"
      by (intro filter_cong) auto
    with False show ?thesis by (simp only: if_False)
  qed
  finally show ?thesis .
qed

lemma sum_filter_mset:
  fixes f :: "'a \<Rightarrow> int"
  assumes "mset xs = mset ys"
  shows "(\<Sum>x\<leftarrow>filter P xs. f x) = (\<Sum>x\<leftarrow>filter P ys. f x)"
proof -
  have "(\<Sum>x\<leftarrow>filter P zs. f x) = sum_mset (image_mset f (filter_mset P (mset zs)))" for zs
    by (metis mset_filter mset_map sum_mset_sum_list)
  with assms show ?thesis by simp
qed

lemma unique_pid_burst:
  "distinct (map pid ps) \<Longrightarrow> p \<in> set ps \<Longrightarrow>
   (\<Sum>x\<leftarrow>filter (\<lambda>x. pid x = pid p) ps. burst x) = burst p"
proof (induction ps)
  case Nil
  then show ?case by simp
next
  case (Cons a ps)
  show ?case
  proof (cases "p = a")
    case True
    with Cons.prems have "pid a \<notin> pid ` set ps" by simp
    then have "filter (\<lambda>x. pid x = pid a) ps = []"
      unfolding filter_empty_conv by (metis imageI)
    with True show ?thesis by simp
  next
    case False
    with Cons.prems have "pid a \<noteq> pid p" by auto
    with Cons False show ?thesis by simp
  qed
qed

lemma records_of_done:
  assumes rel: "map (\<lambda>kv. (fst kv, r_arrival (snd kv), r_burst (snd kv))) res =
                  map (\<lambda>p. (pid p, arrival p, burst p)) done"
    and m: "mset done = mset ps" and d: "distinct (map pid ps)"
  shows "all_completed ps res"
proof -
  from rel have "length (map (\<lambda>kv. (fst kv, r_arrival (snd kv), r_burst (snd kv))) res) =
                  length (map (\<lambda>p. (pid p, arrival p, burst p)) done)" by (rule arg_cong)
  then have l: "length res = length done" by simp
  from m have l2: "length done = length ps" by (rule mset_eq_length)
  from rel have "map fst (map (\<lambda>kv. (fst kv, r_arrival (snd kv), r_burst (snd kv))) res) =
                  map fst (map (\<lambda>p. (pid p, arrival p, burst p)) done)" by (rule arg_cong)
  then have keys: "map fst res = map pid done" by (simp add: comp_def)
  from m have "mset (map pid done) = mset (map pid ps)" by (metis mset_map)
  with d have "distinct (map pid done)" by (metis mset_eq_imp_distinct_iff)
  with keys have dk: "distinct (map fst res)" by simp
  have "case map_of res (pid p) of None \<Rightarrow> False
          | Some r \<Rightarrow> r_arrival r = arrival p \<and> r_burst r = burst p" if "p \<in> set ps" for p
  proof -
    from that m have "p \<in> set done" by (metis mset_eq_setD)
    then have "(pid p, arrival p, burst p) \<in> set (map (\<lambda>p. (pid p, arrival p, burst p)) done)"
      by auto
    with rel have "(pid p, arrival p, burst p) \<in>
        set (map (\<lambda>kv. (fst kv, r_arrival (snd kv), r_burst (snd kv))) res)" by simp
    then obtain kv where kv: "kv \<in> set res" "fst kv = pid p" "r_arrival (snd kv) = arrival p"
      "r_burst (snd kv) = burst p" by auto
    then have "(pid p, snd kv) \<in> set res" by (metis prod.collapse)
    with dk have "map_of res (pid p) = Some (snd kv)" by simp
    with kv show ?thesis by simp
  qed
  with l l2 show ?thesis by (simp add: all_completed_def)
qed

subsection \<open>SJF and Priority as a whole\<close>

lemma nonpreemptive_run:
  assumes d: "distinct (map pid ps)" and ne: "ps \<noteq> []"
  shows "\<exists>out done. nonpreemptive key ps = Inr out \<and>
           processes_after out = sort_key arrival ps \<and>
           mset done = mset ps \<and>
           map (\<lambda>e. (ev_pid e, ev_end e - ev_start e)) (gantt out) =
             map (\<lambda>p. (pid p, burst p)) done \<and>
           all_completed ps (results out)"
proof -
  define sps where "sps = sort_key arrival ps"
  have ms: "mset sps = mset ps" by (simp add: sps_def)
  from ne have "sps \<noteq> []" unfolding sps_def by (metis set_sort set_empty)
  then obtain p0 rest where sp: "sps = p0 # rest" by (cases sps) auto
  from ms d have ds: "distinct (map pid sps)"
    by (metis mset_eq_imp_distinct_iff mset_map)
  let ?s0 = "\<lparr>np_time = arrival p0, np_i = 0, np_ready = [], np_gantt = [], np_results = []\<rparr>"
  have "np_inv sps ?s0 []" by (simp add: np_inv_def)
  from np_loop_total [OF ds this, of key] obtain r done' where
    run: "np_loop key sps ?s0 = Inr r" and inv: "np_inv sps r done'"
    and fin: "length sps \<le> length (np_results r)" by blast
  from np_inv_final [OF inv fin] ms have md: "mset done' = mset ps" by simp
  let ?out = "\<lparr>processes_after = sps, gantt = np_gantt r, results = np_results r\<rparr>"
  from run sp have "nonpreemptive key ps = Inr ?out"
    by (simp add: nonpreemptive_def sps_def [symmetric])
  moreover from inv have "map (\<lambda>e. (ev_pid e, ev_end e - ev_start e)) (np_gantt r) =
             map (\<lambda>p. (pid p, burst p)) done'" by (simp add: np_inv_def)
  moreover from inv have "map (\<lambda>kv. (fst kv, r_arrival (snd kv), r_burst (snd kv))) (np_results r) =
       map (\<lambda>p. (pid p, arrival p, burst p)) done'" by (simp add: np_inv_def)
  then have "all_completed ps (np_results r)" using md d by (rule records_of_done)
  ultimately show ?thesis using md by (auto simp: sps_def)
qed

subsection \<open>Order of the timeline and its first event, SJF and Priority\<close>

lemma sorted_hd_Min:
  fixes xs :: "int list"
  assumes "sorted xs" and "xs \<noteq> []"
  shows "hd xs = Min (set xs)"
proof -
  from assms(2) obtain x ys where xs: "xs = x # ys" by (cases xs) auto
  with assms(1) have "\<forall>y\<in>set xs. x \<le> y" by auto
  then have "Min (set xs) = x" using xs by (intro Min_eqI) auto
  with xs show ?thesis by simp
qed

lemma first_arrival_Min:
  assumes "ps \<noteq> []"
  shows "sort_key arrival ps \<noteq> []"
    and "arrival (hd (sort_key arrival ps)) = Min (arrival ` set ps)"
proof -
  show ne: "sort_key arrival ps \<noteq> []" using assms by (metis set_sort set_empty)
  have "sorted (map arrival (sort_key arrival ps))" by (rule sorted_sort_key)
  moreover from ne have "map arrival (sort_key arrival ps) \<noteq> []" by simp
  ultimately have "hd (map arrival (sort_key arrival ps)) = Min (set (map arrival (sort_key arrival ps)))"
    by (rule sorted_hd_Min)
  with ne show "arrival (hd (sort_key arrival ps)) = Min (arrival ` set ps)"
    by (simp add: hd_map)
qed

lemma np_step_ordered:
  assumes "ordered_upto (np_gantt s) (np_time s)" and st: "np_step key ps s = Inr s'"
  shows "ordered_upto (np_gantt s') (np_time s')"
proof -
  obtain i1 ready1 where a: "admit ps (np_time s) (np_i s) (np_ready s) = (i1, ready1)"
    by (cases "admit ps (np_time s) (np_i s) (np_ready s)") auto
  show ?thesis
  proof (cases "ready1 = []")
    case True
    with st a have lt: "i1 < length ps"
      and s': "s' = s\<lparr>np_i := i1, np_ready := ready1, np_time := arrival (ps ! i1)\<rparr>"
      by (auto simp: np_step_def split: if_splits)
    from admit_stops [OF a] lt have "np_time s < arrival (ps ! i1)" by simp
    with assms(1) show ?thesis by (auto simp: s' ordered_upto_def)
  next
    case False
    with st a assms(1) show ?thesis
      by (auto simp: np_step_def Let_def ordered_upto_def successively_snoc)
  qed
qed

lemma nonpreemptive_ordered:
  assumes "nonpreemptive key ps = Inr out"
  shows "successively (\<lambda>a b. ev_end a \<le> ev_start b) (gantt out)"
proof -
  define sps where "sps = sort_key arrival ps"
  from assms obtain p0 rest r where sp: "sps = p0 # rest"
    and run: "np_loop key sps
        \<lparr>np_time = arrival p0, np_i = 0, np_ready = [], np_gantt = [], np_results = []\<rparr> = Inr r"
    and out: "gantt out = np_gantt r"
    by (auto simp: nonpreemptive_def sps_def [symmetric] split: list.splits sum.splits)
  have "ordered_upto (np_gantt r) (np_time r) \<and> length sps \<le> length (np_results r)"
  proof (rule np_loop_rule [OF run, where P = "\<lambda>s. ordered_upto (np_gantt s) (np_time s)"])
    show "ordered_upto (np_gantt \<lparr>np_time = arrival p0, np_i = 0, np_ready = [], np_gantt = [],
        np_results = []\<rparr>) (np_time \<lparr>np_time = arrival p0, np_i = 0, np_ready = [],
        np_gantt = [], np_results = []\<rparr>)"
      by (simp add: ordered_upto_def)
  next
    fix s s' assume "ordered_upto (np_gantt s) (np_time s)" "np_step key sps s = Inr s'"
    then show "ordered_upto (np_gantt s') (np_time s')" by (rule np_step_ordered)
  qed
  with out show ?thesis by (simp add: ordered_upto_def)
qed

lemma np_step_starts:
  assumes ne: "ps \<noteq> []" and t0: "arrival (ps ! 0) = t0"
    and P: "starts_at t0 (np_gantt s) (np_time s) (np_ready s \<noteq> [] \<or> np_i s = 0)"
    and st: "np_step key ps s = Inr s'"
  shows "starts_at t0 (np_gantt s') (np_time s') (np_ready s' \<noteq> [] \<or> np_i s' = 0)"
proof -
  obtain i1 ready1 where a: "admit ps (np_time s) (np_i s) (np_ready s) = (i1, ready1)"
    by (cases "admit ps (np_time s) (np_i s) (np_ready s)") auto
  show ?thesis
  proof (cases "ready1 = []")
    case True
    with a have e: "i1 = np_i s" "np_ready s = []" using admit_empty by blast+
    from True st a have s': "s' = s\<lparr>np_i := i1, np_ready := ready1, np_time := arrival (ps ! i1)\<rparr>"
      by (auto simp: np_step_def split: if_splits)
    have "np_gantt s \<noteq> []"
    proof
      assume "np_gantt s = []"
      with P e have "np_time s = t0" "i1 = 0" by (simp_all add: starts_at_def)
      with admit_stops [OF a] ne t0 show False by simp
    qed
    with P show ?thesis by (simp add: s' starts_at_def)
  next
    case False
    with st a have s': "np_gantt s' = np_gantt s @
        [\<lparr>ev_pid = pid (hd (sort_key key ready1)), ev_start = np_time s,
          ev_end = np_time s + burst (hd (sort_key key ready1))\<rparr>]"
      by (auto simp: np_step_def Let_def)
    with P show ?thesis by (cases "np_gantt s = []") (simp_all add: starts_at_def)
  qed
qed

lemma nonpreemptive_first:
  assumes "nonpreemptive key ps = Inr out" and "gantt out \<noteq> []"
  shows "ev_start (hd (gantt out)) = arrival (hd (sort_key arrival ps))"
proof -
  define sps where "sps = sort_key arrival ps"
  from assms obtain p0 rest r where sp: "sps = p0 # rest"
    and run: "np_loop key sps
        \<lparr>np_time = arrival p0, np_i = 0, np_ready = [], np_gantt = [], np_results = []\<rparr> = Inr r"
    and out: "gantt out = np_gantt r"
    by (auto simp: nonpreemptive_def sps_def [symmetric] split: list.splits sum.splits)
  from sp have ne: "sps \<noteq> []" and t0: "arrival (sps ! 0) = arrival p0" by simp_all
  have "starts_at (arrival p0) (np_gantt r) (np_time r) (np_ready r \<noteq> [] \<or> np_i r = 0)
          \<and> length sps \<le> length (np_results r)"
  proof (rule np_loop_rule [OF run, where
          P = "\<lambda>s. starts_at (arrival p0) (np_gantt s) (np_time s) (np_ready s \<noteq> [] \<or> np_i s = 0)"])
    show "starts_at (arrival p0)
        (np_gantt \<lparr>np_time = arrival p0, np_i = 0, np_ready = [], np_gantt = [], np_results = []\<rparr>)
        (np_time \<lparr>np_time = arrival p0, np_i = 0, np_ready = [], np_gantt = [], np_results = []\<rparr>)
        (np_ready \<lparr>np_time = arrival p0, np_i = 0, np_ready = [], np_gantt = [], np_results = []\<rparr> \<noteq> []
         \<or> np_i \<lparr>np_time = arrival p0, np_i = 0, np_ready = [], np_gantt = [], np_results = []\<rparr> = 0)"
      by (simp add: starts_at_def)
  next
    fix s s'
    assume "starts_at (arrival p0) (np_gantt s) (np_time s) (np_ready s \<noteq> [] \<or> np_i s = 0)"
      and "np_step key sps s = Inr s'"
    then show "starts_at (arrival p0) (np_gantt s') (np_time s') (np_ready s' \<noteq> [] \<or> np_i s' = 0)"
      by (rule np_step_starts [OF ne t0])
  qed
  with out assms(2) sp show ?thesis by (simp add: starts_at_def sps_def [symmetric])
qed

subsection \<open>One pass of Round Robin\<close>

lemma rr_step_idle:
  assumes "admit ps (rr_time s) (rr_i s) (rr_ready s) = (i1, [])"
  shows "rr_step ps q s =
           (if i1 < length ps
            then Inr (s\<lparr>rr_i := i1, rr_ready := [], rr_time := arrival (ps ! i1)\<rparr>)
            else Inl IndexError)"
  using assms by (simp add: rr_step_def)

lemma rr_step_run:
  assumes "admit ps (rr_time s) (rr_i s) (rr_ready s) = (i1, p # rest)"
    and "map_of (rr_remaining s) (pid p) = Some rem"
    and "admit ps (rr_time s + min q rem) i1 rest = (i2, ready2)"
  shows "rr_step ps q s =
           Inr \<lparr>rr_time = rr_time s + min q rem, rr_i = i2,
                rr_ready = (if 0 < rem - min q rem then ready2 @ [p] else ready2),
                rr_gantt = rr_gantt s @
                  [\<lparr>ev_pid = pid p, ev_start = rr_time s, ev_end = rr_time s + min q rem\<rparr>],
                rr_remaining = AList.update (pid p) (rem - min q rem) (rr_remaining s),
                rr_completed = (if 0 < rem - min q rem then rr_completed s
                                else AList.update (pid p) (rr_time s + min q rem) (rr_completed s))\<rparr>"
  using assms by (simp add: rr_step_def Let_def)

lemma slice_total_snoc:
  "slice_total k (g @ [e]) = slice_total k g + (if ev_pid e = k then ev_end e - ev_start e else 0)"
  by (simp add: slice_total_def)

lemma take_drop_pids:
  assumes "distinct (map pid ps)" and "x \<in> set (drop n ps)" and "y \<in> set (take n ps)"
  shows "pid x \<noteq> pid y"
proof -
  have "distinct (map pid (take n ps @ drop n ps))" using assms(1) by simp
  then have "pid ` set (take n ps) \<inter> pid ` set (drop n ps) = {}"
    by (simp only: map_append distinct_append set_map)
  with assms(2,3) show ?thesis by (metis disjoint_iff imageI)
qed

lemma pid_inj:
  assumes "distinct (map pid ps)" and "x \<in> set ps" and "y \<in> set ps" and "pid x = pid y"
  shows "x = y"
  using assms by (meson distinct_map inj_onD)


lemma rr_run_inv:
  assumes v: "valid_process_set ps" and q: "0 < q" and inv: "rr_inv ps s done"
    and a1: "admit ps (rr_time s) (rr_i s) (rr_ready s) = (i1, p # rest)"
    and rm: "map_of (rr_remaining s) (pid p) = Some rem"
    and a2: "admit ps (rr_time s + min q rem) i1 rest = (i2, ready2)"
    and s': "s' = \<lparr>rr_time = rr_time s + min q rem, rr_i = i2,
                rr_ready = (if 0 < rem - min q rem then ready2 @ [p] else ready2),
                rr_gantt = rr_gantt s @
                  [\<lparr>ev_pid = pid p, ev_start = rr_time s, ev_end = rr_time s + min q rem\<rparr>],
                rr_remaining = AList.update (pid p) (rem - min q rem) (rr_remaining s),
                rr_completed = (if 0 < rem - min q rem then rr_completed s
                                else AList.update (pid p) (rr_time s + min q rem) (rr_completed s))\<rparr>"
  shows "p \<in> set ps" and "0 < rem"
    and "rr_inv ps s' (if 0 < rem - min q rem then done else done @ [p])"
proof -
  from v have d: "distinct (map pid ps)" by (simp add: valid_process_set_def)
  from v have pos: "0 < burst x" if "x \<in> set ps" for x
    using that by (simp add: valid_process_set_def)
  from inv have i: "rr_i s \<le> length ps"
    and m: "mset (rr_ready s) + mset done = mset (take (rr_i s) ps)"
    and ck: "map fst (rr_completed s) = map pid done"
    by (simp_all add: rr_inv_def)
  from inv have all: "\<exists>r. map_of (rr_remaining s) (pid x) = Some r \<and> 0 \<le> r \<and>
      slice_total (pid x) (rr_gantt s) + r = burst x" if "x \<in> set ps" for x
    using that unfolding rr_inv_def by blast
  from inv have rdy: "\<exists>r. map_of (rr_remaining s) (pid x) = Some r \<and> 0 < r"
    if "x \<in> set (rr_ready s)" for x
    using that unfolding rr_inv_def by blast
  from inv have fut: "map_of (rr_remaining s) (pid x) = Some (burst x)"
    if "x \<in> set (drop (rr_i s) ps)" for x
    using that unfolding rr_inv_def by blast
  from inv have dn: "map_of (rr_remaining s) (pid x) = Some 0" if "x \<in> set done" for x
    using that unfolding rr_inv_def by blast
  let ?tw1 = "takeWhile (\<lambda>x. arrival x \<le> rr_time s) (drop (rr_i s) ps)"
  let ?tw2 = "takeWhile (\<lambda>x. arrival x \<le> rr_time s + min q rem) (drop i1 ps)"
  note f1 = admit_facts [OF a1 i]
  note f2 = admit_facts [OF a2 f1(2)]
  from f1(3) have r1: "set (p # rest) = set (rr_ready s) \<union> set ?tw1"
    by (metis set_append)
  from f1(3) have "mset (p # rest) = mset (rr_ready s) + mset ?tw1"
    by (metis mset_append)
  with m f1(4) have m1: "mset (p # rest) + mset done = mset (take i1 ps)" by simp
  then have "set (p # rest) \<union> set done = set (take i1 ps)"
    by (metis mset_append set_append mset_eq_setD)
  then have pin1: "p \<in> set (take i1 ps)" by auto
  then show pin: "p \<in> set ps" by (rule in_set_takeD)
  have dist: "distinct (map pid ((p # rest) @ done))" by (rule admitted_distinct [OF d m1])
  have live: "\<exists>r. map_of (rr_remaining s) (pid x) = Some r \<and> 0 < r"
    if "x \<in> set (rr_ready s) \<union> set (drop (rr_i s) ps)" for x
  proof (cases "x \<in> set (rr_ready s)")
    case True then show ?thesis by (rule rdy)
  next
    case False
    with that have x: "x \<in> set (drop (rr_i s) ps)" by simp
    then have "x \<in> set ps" by (rule in_set_dropD)
    with fut [OF x] pos show ?thesis by simp
  qed
  have "p \<in> set (rr_ready s) \<union> set (drop (rr_i s) ps)" using r1 f1(6) by auto
  from live [OF this] rm show rpos: "0 < rem" by simp
  define rt where "rt = min q rem"
  from q rpos have rt: "0 < rt" "rt \<le> rem" by (simp_all add: rt_def)
  have upd: "map_of (rr_remaining s') k =
      (if k = pid p then Some (rem - rt) else map_of (rr_remaining s) k)" for k
    by (simp add: s' update_conv' rt_def)
  have g': "slice_total k (rr_gantt s') =
      slice_total k (rr_gantt s) + (if pid p = k then rt else 0)" for k
    by (simp add: s' slice_total_snoc rt_def)
  have other: "pid x \<noteq> pid p" if "x \<in> set rest \<union> set done \<union> set (drop i1 ps)" for x
  proof (cases "x \<in> set (drop i1 ps)")
    case True
    then show ?thesis using pin1 by (rule take_drop_pids [OF d])
  next
    case False
    with that have "x \<in> set rest \<union> set done" by simp
    moreover from dist have "pid p \<notin> pid ` (set rest \<union> set done)" by auto
    ultimately show ?thesis by (metis imageI)
  qed
  have c1: "rr_i s' \<le> length ps" using f2(2) by (simp add: s')
  have "mset ready2 = mset rest + mset ?tw2" using f2(3) by (metis mset_append)
  with m1 f2(4) have m2: "add_mset p (mset ready2) + mset done = mset (take i2 ps)" by simp
  have c2: "mset (rr_ready s') + mset (if 0 < rem - min q rem then done else done @ [p]) =
      mset (take (rr_i s') ps)"
    using m2 by (simp add: s')
  have "pid p \<notin> pid ` set done" using dist by auto
  then have "pid p \<notin> fst ` set (rr_completed s)" using ck by (metis image_set)
  then have c3: "map fst (rr_completed s') =
      map pid (if 0 < rem - min q rem then done else done @ [p])"
    using ck by (simp add: s' update_fresh)
  have c4: "\<forall>x \<in> set ps. \<exists>r. map_of (rr_remaining s') (pid x) = Some r \<and> 0 \<le> r \<and>
      slice_total (pid x) (rr_gantt s') + r = burst x"
  proof
    fix x assume x: "x \<in> set ps"
    from all [OF x] obtain r where r: "map_of (rr_remaining s) (pid x) = Some r" "0 \<le> r"
      "slice_total (pid x) (rr_gantt s) + r = burst x" by blast
    show "\<exists>r. map_of (rr_remaining s') (pid x) = Some r \<and> 0 \<le> r \<and>
      slice_total (pid x) (rr_gantt s') + r = burst x"
    proof (cases "pid x = pid p")
      case True
      with r rm have "r = rem" by simp
      with True r rt show ?thesis by (simp add: upd g')
    next
      case False
      then have "pid p \<noteq> pid x" by simp
      with False r show ?thesis by (simp add: upd g')
    qed
  qed
  have keep: "\<exists>r. map_of (rr_remaining s') (pid x) = Some r \<and> 0 < r"
    if "x \<in> set ready2" for x
  proof -
    from that f2(3) have "x \<in> set rest \<or> x \<in> set ?tw2" by (metis set_append Un_iff)
    then have "x \<in> set rest \<union> set (drop i1 ps)" using f2(6) by auto
    then have ne: "pid x \<noteq> pid p" using other by blast
    from \<open>x \<in> set rest \<union> set (drop i1 ps)\<close> r1 f1(5)
    have "x \<in> set (rr_ready s) \<union> set (drop (rr_i s) ps)"
      using f1(6) by auto
    from live [OF this] ne show ?thesis by (simp add: upd)
  qed
  have c5: "\<forall>x \<in> set (rr_ready s'). \<exists>r. map_of (rr_remaining s') (pid x) = Some r \<and> 0 < r"
  proof
    fix x assume x: "x \<in> set (rr_ready s')"
    show "\<exists>r. map_of (rr_remaining s') (pid x) = Some r \<and> 0 < r"
    proof (cases "x \<in> set ready2")
      case True then show ?thesis by (rule keep)
    next
      case False
      with x have "x = p" "0 < rem - min q rem" by (auto simp: s' split: if_splits)
      then show ?thesis by (simp add: upd rt_def)
    qed
  qed
  have c6: "\<forall>x \<in> set (drop (rr_i s') ps). map_of (rr_remaining s') (pid x) = Some (burst x)"
  proof
    fix x assume "x \<in> set (drop (rr_i s') ps)"
    then have x2: "x \<in> set (drop i1 ps)" using f2(5) by (auto simp: s')
    then have "x \<in> set (drop (rr_i s) ps)" using f1(5) by auto
    from fut [OF this] other x2 show "map_of (rr_remaining s') (pid x) = Some (burst x)"
      by (simp add: upd)
  qed
  have c7: "\<forall>x \<in> set (if 0 < rem - min q rem then done else done @ [p]).
      map_of (rr_remaining s') (pid x) = Some 0"
  proof
    fix x assume x: "x \<in> set (if 0 < rem - min q rem then done else done @ [p])"
    show "map_of (rr_remaining s') (pid x) = Some 0"
    proof (cases "x \<in> set done")
      case True
      with other have "pid x \<noteq> pid p" by blast
      with dn [OF True] show ?thesis by (simp add: upd)
    next
      case False
      with x have "x = p" "\<not> 0 < rem - min q rem" by (auto split: if_splits)
      with rt show ?thesis by (simp add: upd rt_def)
    qed
  qed
  show "rr_inv ps s' (if 0 < rem - min q rem then done else done @ [p])"
    unfolding rr_inv_def using c1 c2 c3 c4 c5 c6 c7 by (intro conjI)
qed

section \<open>Properties\<close>

subsection \<open>Fixed scenarios\<close>

text \<open>C5. On \<open>P1(arrival 0, burst 5)\<close>, \<open>P2(arrival 0, burst 5)\<close>, given in this order,
  \<open>sjf\<close> runs P1 in [0, 5) and then P2 in [5, 10), whatever the priorities are: the
  completions are 5 for P1 and 10 for P2. The model is a function, so every call gives
  this result.\<close>

theorem sjf_tie_insertion_order:
  "sjf [\<lparr>pid = ''P1'', arrival = 0, burst = 5, priority = pr1\<rparr>,
        \<lparr>pid = ''P2'', arrival = 0, burst = 5, priority = pr2\<rparr>] =
   Inr \<lparr>processes_after =
          [\<lparr>pid = ''P1'', arrival = 0, burst = 5, priority = pr1\<rparr>,
           \<lparr>pid = ''P2'', arrival = 0, burst = 5, priority = pr2\<rparr>],
        gantt = [\<lparr>ev_pid = ''P1'', ev_start = 0, ev_end = 5\<rparr>,
                 \<lparr>ev_pid = ''P2'', ev_start = 5, ev_end = 10\<rparr>],
        results = [(''P1'', \<lparr>r_arrival = 0, r_burst = 5, r_completion = 5\<rparr>),
                   (''P2'', \<lparr>r_arrival = 0, r_burst = 5, r_completion = 10\<rparr>)]\<rparr>"
  by (simp add: sjf_def nonpreemptive_def np_loop.simps np_step_def admit.simps Let_def)

text \<open>C10. On the empty list \<open>fcfs\<close> returns an empty timeline and an empty completion
  dict, while \<open>sjf\<close>, \<open>priority\<close> and \<open>round_robin\<close> (with any quantum) raise
  \<open>IndexError\<close> at \<open>processes[0]\<close>.\<close>

theorem empty_list_divergence:
  "fcfs [] = \<lparr>processes_after = [], gantt = [], results = []\<rparr> \<and>
   sjf [] = Inl IndexError \<and>
   priority_sched [] = Inl IndexError \<and>
   round_robin [] quantum = Some (Inl IndexError)"
  by (simp add: fcfs_def sjf_def priority_sched_def nonpreemptive_def round_robin_def)

end
